theory Spec2Isabelle
  imports Main "HOL-Library.Word"
begin

section \<open>C strings and the library calls of prep.c\<close>

text \<open>
  A C string is modelled as the list of its bytes; the terminating NUL is the end of the
  list. A byte list that still holds a NUL (a chunk read from a file may) is seen by
  every string function of the C library only up to that byte: \<open>cstr\<close>.
\<close>

definition cstr :: "string \<Rightarrow> string" where
  "cstr s = takeWhile (\<lambda>c. c \<noteq> CHR 0x00) s"

text \<open>
  \<^verbatim>\<open>char delimit[] = " \t\r\n.,:?!`()[]-/\'\"<>";\<close> (prep.c, line 52)
\<close>

definition delimit :: string where
  "delimit = [CHR 0x20, CHR 0x09, CHR 0x0D, CHR 0x0A, CHR ''.'', CHR '','', CHR '':'',
              CHR ''?'', CHR ''!'', CHR 0x60, CHR ''('', CHR '')'', CHR ''['', CHR '']'',
              CHR ''-'', CHR ''/'', CHR 0x27, CHR 0x22, CHR ''<'', CHR ''>'']"

text \<open>
  \<open>strcmp\<close>: the difference of the first two bytes that differ, read as unsigned char;
  the comparison stops at the terminator of either string.
\<close>

fun strcmp :: "string \<Rightarrow> string \<Rightarrow> int" where
  "strcmp [] [] = 0"
| "strcmp [] (b # bs) = - int (of_char b)"
| "strcmp (a # as) [] = int (of_char a)"
| "strcmp (a # as) (b # bs) =
     (if a \<noteq> b then int (of_char a) - int (of_char b)
      else if a = CHR 0x00 then 0
      else strcmp as bs)"

text \<open>\<open>tolower\<close> in the "C" locale (the program never calls setlocale).\<close>

definition tolower :: "char \<Rightarrow> char" where
  "tolower c = (let n = (of_char c :: nat) in if 65 \<le> n \<and> n \<le> 90 then char_of (n + 32) else c)"

text \<open>\<open>strcasecmp\<close>: as \<open>strcmp\<close>, on the lower-cased bytes.\<close>

fun strcasecmp :: "string \<Rightarrow> string \<Rightarrow> int" where
  "strcasecmp [] [] = 0"
| "strcasecmp [] (b # bs) = - int (of_char (tolower b))"
| "strcasecmp (a # as) [] = int (of_char (tolower a))"
| "strcasecmp (a # as) (b # bs) =
     (if tolower a \<noteq> tolower b then int (of_char (tolower a)) - int (of_char (tolower b))
      else if a = CHR 0x00 then 0
      else strcasecmp as bs)"

text \<open>
  \<open>strtok_r s delim\<close>, on the string the call continues from (the line on the first
  call, the save pointer afterwards): skip the leading delimiters; at the end of the
  string return NULL (\<open>None\<close>); otherwise the token runs to the next delimiter, which is
  overwritten by a terminator, and the save pointer is set behind it.
\<close>

definition strtok_r :: "string \<Rightarrow> string \<Rightarrow> (string \<times> string) option" where
  "strtok_r s delim =
     (let s1 = dropWhile (\<lambda>c. c \<in> set delim) s in
      if s1 = [] then None
      else Some (takeWhile (\<lambda>c. c \<notin> set delim) s1,
                 drop 1 (dropWhile (\<lambda>c. c \<notin> set delim) s1)))"

text \<open>
  \<open>fgets line n file\<close>: at end of file (or on a read error) NULL; otherwise at most
  \<open>n - 1\<close> bytes, stopping behind the first newline. The result is the chunk stored and
  the rest of the stream.
\<close>

fun fgets_read :: "nat \<Rightarrow> string \<Rightarrow> string" where
  "fgets_read 0 s = []"
| "fgets_read (Suc m) [] = []"
| "fgets_read (Suc m) (c # cs) = (if c = CHR 0x0A then [c] else c # fgets_read m cs)"

definition fgets :: "nat \<Rightarrow> string \<Rightarrow> (string \<times> string) option" where
  "fgets n file =
     (if file = [] then None
      else let line = fgets_read (n - 1) file in Some (line, drop (length line) file))"

text \<open>The conversion \<open>%d\<close> of printf.\<close>

fun show_nat :: "nat \<Rightarrow> string" where
  "show_nat n = (if n < 10 then [char_of (48 + n)] else show_nat (n div 10) @ [char_of (48 + n mod 10)])"

declare show_nat.simps [simp del]

definition show_int :: "int \<Rightarrow> string" where
  "show_int i = (if i < 0 then CHR ''-'' # show_nat (nat (- i)) else show_nat (nat i))"

section \<open>The File Searcher: analyze_file\<close>

text \<open>
  The globals of lines 48 to 51: \<open>g_search_dir\<close> (NULL until set), \<open>g_exact\<close> and
  \<open>g_search_terms\<close> (\<open>g_num_terms\<close> is the length of the list).
\<close>

record globals =
  g_search_dir :: "string option"
  g_exact :: bool
  g_search_terms :: "string list"

text \<open>
  The locals of \<open>analyze_file\<close> that live across iterations: \<open>line_num\<close> (a C int,
  32 bits, printed signed), \<open>found\<close>, and the calls of printf made so far.
\<close>

record locals =
  line_num :: "32 word"
  found :: int
  printed :: "string list"

text \<open>
  An open stream (a \<open>FILE *\<close>): the descriptor \<open>fileno\<close> gives for it and the
  bytes its \<open>fgets\<close> calls deliver before end of file or a read error ends the loop.
\<close>

type_synonym stream = "int \<times> string"

definition fileno :: "stream \<Rightarrow> int" where
  "fileno f = fst f"

text \<open>
  \<open>recover_filename\<close> (lines 85 to 98). \<open>proc\<close> stands for \<open>readlink\<close> at the time
  of the call: the target of a link, or \<open>None\<close> when \<open>readlink\<close> returns a negative
  value. \<open>readlink\<close> stores at most the 255 bytes asked for; the function returns
  NULL (\<open>None\<close>) on failure and otherwise the buffer, terminated behind what was
  stored.
\<close>

definition recover_filename :: "(string \<Rightarrow> string option) \<Rightarrow> stream \<Rightarrow> string option" where
  "recover_filename proc f =
     (let fd = fileno f;
          fd_path = ''/proc/self/fd/'' @ show_int fd
      in case proc fd_path of
           None \<Rightarrow> None
         | Some target \<Rightarrow> Some (cstr (take 255 target)))"

text \<open>
  The conversion \<open>%s\<close> of printf: the C string, and \<open>(null)\<close> for a NULL pointer
  (what the C library of the program, glibc, prints; \<open>analyze_file\<close> does not test the
  pointer).
\<close>

definition printf_s :: "string option \<Rightarrow> string" where
  "printf_s p = (case p of None \<Rightarrow> ''(null)'' | Some str \<Rightarrow> str)"

text \<open>\<^verbatim>\<open>printf("%s:%d:%s\n", ptest, line_num, match_line);\<close> (line 145)\<close>

definition match_record :: "string option \<Rightarrow> 32 word \<Rightarrow> string \<Rightarrow> string" where
  "match_record ptest n match_line =
     printf_s ptest @ '':'' @ show_int (sint n) @ '':'' @ match_line @ [CHR 0x0A]"

text \<open>Lines 138 to 141: the comparison of one word with one term.\<close>

definition compare :: "bool \<Rightarrow> string \<Rightarrow> string \<Rightarrow> int" where
  "compare exact word term = (if exact then strcmp word term else strcasecmp word term)"

text \<open>
  The \<open>for\<close> loop of lines 136 to 150 over the terms still to try, for one word:
  on \<open>result == 0 && !found\<close> print, set \<open>found\<close> and break.
\<close>

fun for_terms :: "bool \<Rightarrow> string option \<Rightarrow> string \<Rightarrow> string \<Rightarrow> string list \<Rightarrow> locals \<Rightarrow> locals" where
  "for_terms exact ptest match_line word [] l = l"
| "for_terms exact ptest match_line word (t # ts) l =
     (let result = compare exact word t in
      if result = 0 \<and> found l = 0
      then l\<lparr>found := 1, printed := printed l @ [match_record ptest (line_num l) match_line]\<rparr>
      else for_terms exact ptest match_line word ts l)"

text \<open>
  The \<open>while (word != NULL)\<close> loop of lines 134 to 154. Its argument is the result of
  the last \<open>strtok_r\<close>: the word and the save pointer. After the \<open>for\<close> loop
  \<open>found\<close> is set to 0 again (line 151) and the next token is taken.
\<close>

function while_words :: "globals \<Rightarrow> string option \<Rightarrow> string \<Rightarrow> (string \<times> string) option \<Rightarrow> locals \<Rightarrow> locals" where
  "while_words g ptest match_line None l = l"
| "while_words g ptest match_line (Some (word, save)) l =
     while_words g ptest match_line (strtok_r save delimit)
       ((for_terms (g_exact g) ptest match_line word (g_search_terms g) l)\<lparr>found := 0\<rparr>)"
  by pat_completeness auto
termination
proof (relation "measure (\<lambda>(g, p, m, tok, l). case tok of None \<Rightarrow> 0 | Some (w, sv) \<Rightarrow> Suc (length sv))")
  show "wf (measure (\<lambda>(g, p, m, tok, l). case tok of None \<Rightarrow> 0 | Some (w, sv) \<Rightarrow> Suc (length sv)))"
    by simp
next
  fix g :: globals and ptest :: "string option" and match_line word save :: string and l :: locals
  have shorter: "length sv < length save" if a: "strtok_r save delimit = Some (w, sv)" for w sv
  proof -
    let ?s1 = "dropWhile (\<lambda>c. c \<in> set delimit) save"
    from a have ne: "?s1 \<noteq> []" and sv: "sv = drop 1 (dropWhile (\<lambda>c. c \<notin> set delimit) ?s1)"
      by (auto simp: strtok_r_def Let_def split: if_splits)
    have "length sv \<le> length ?s1 - 1"
      unfolding sv using length_dropWhile_le [of "\<lambda>c. c \<notin> set delimit" ?s1] by simp
    moreover have "0 < length ?s1" using ne by simp
    moreover have "length ?s1 \<le> length save" by (rule length_dropWhile_le)
    ultimately show ?thesis by linarith
  qed
  show "((g, ptest, match_line, strtok_r save delimit,
          (for_terms (g_exact g) ptest match_line word (g_search_terms g) l)\<lparr>found := 0\<rparr>),
         (g, ptest, match_line, Some (word, save), l))
        \<in> measure (\<lambda>(g, p, m, tok, l). case tok of None \<Rightarrow> 0 | Some (w, sv) \<Rightarrow> Suc (length sv))"
    using shorter by (auto split: option.splits)
qed

text \<open>
  The body of the \<open>while (fgets(line, line_sz, file) != NULL)\<close> loop, lines 130 to
  156, for the chunk just read: \<open>strcpy\<close> and \<open>strtok_r\<close> see the chunk as a C
  string; after the words \<open>line_num\<close> is incremented (as a 32-bit value).
\<close>

definition loop_body :: "globals \<Rightarrow> string option \<Rightarrow> string \<Rightarrow> locals \<Rightarrow> locals" where
  "loop_body g ptest line l =
     (let match_line = cstr line;
          l1 = while_words g ptest match_line (strtok_r (cstr line) delimit) l
      in l1\<lparr>line_num := line_num l1 + 1\<rparr>)"

text \<open>
  The loop of lines 128 to 158 on the bytes the stream still delivers; \<open>line_sz\<close> is
  the constant of line 113.
\<close>

definition line_sz :: nat where
  "line_sz = 100"

function while_fgets :: "globals \<Rightarrow> string option \<Rightarrow> string \<Rightarrow> locals \<Rightarrow> locals" where
  "while_fgets g ptest file l =
     (case fgets line_sz file of
        None \<Rightarrow> l
      | Some (line, rest) \<Rightarrow> while_fgets g ptest rest (loop_body g ptest line l))"
  by pat_completeness auto
termination
  by (relation "measure (\<lambda>(g, p, file, l). length file)")
     (auto simp: fgets_def line_sz_def Let_def numeral_eq_Suc neq_Nil_conv split: if_splits)

declare while_fgets.simps [simp del]

text \<open>
  \<open>analyze_file\<close> (lines 110 to 164) on an open stream: the name is recovered first
  (line 115), then the loop runs. The value is the list of the strings printed, in
  order. (\<open>sem_post\<close> and \<open>fclose\<close>, lines 160 and 161, are steps of the
  interleaving below.)
\<close>

definition analyze_file :: "globals \<Rightarrow> (string \<Rightarrow> string option) \<Rightarrow> stream \<Rightarrow> string list" where
  "analyze_file g proc f =
     (let ptest = recover_filename proc f
      in printed (while_fgets g ptest (snd f) \<lparr>line_num = 0, found = 0, printed = []\<rparr>))"

section \<open>The Directory Walker: ls\<close>

text \<open>
  The file system as the walker sees it. A node answers the three calls the walker makes
  on a path: \<open>stat\<close> (failure, or the file type in \<open>st_mode\<close>), \<open>fopen(path, "r")\<close>
  (NULL, or a stream) and \<open>opendir\<close> with \<open>readdir\<close> (NULL, or the entries in the
  order \<open>readdir\<close> returns them, each with the node its path leads to).
\<close>

datatype st_mode = S_IFDIR | S_IFREG | S_IFOTHER

datatype node =
  Node (n_stat: "st_mode option") (n_fopen: "stream option")
       (n_opendir: "(string \<times> node) list option")

text \<open>
  What the walk thread does, in order: the successful \<open>opendir\<close> and \<open>fopen\<close> calls
  with their path, \<open>perror(NULL)\<close>, \<open>sem_wait\<close>, \<open>pthread_create\<close> of
  \<open>analyze_file\<close> on a stream, \<open>closedir\<close>. The result of \<open>pthread_create\<close>
  is not looked at in line 205; the thread is taken to start.
\<close>

datatype event =
  Opendir string
| Perror
| Fopen string
| Sem_wait
| Pthread_create stream
| Closedir string

definition SEPARATOR :: string where
  "SEPARATOR = ''/''"

text \<open>
  \<open>ls\<close> (lines 176 to 223) and its \<open>while ((filei = readdir(directory)) != NULL)\<close>
  loop over the entries still to come.
\<close>

fun ls :: "string \<Rightarrow> node \<Rightarrow> event list"
  and while_readdir :: "string \<Rightarrow> (string \<times> node) list \<Rightarrow> event list" where
  "ls path (Node st fo None) = [Perror]"
| "ls path (Node st fo (Some entries)) = Opendir path # while_readdir path entries @ [Closedir path]"
| "while_readdir path [] = []"
| "while_readdir path ((d_name, child) # entries) =
     (if d_name = ''..'' \<or> d_name = ''.'' then []
      else let buffer = path @ SEPARATOR @ d_name in
        case n_stat child of
          None \<Rightarrow> []
        | Some mode \<Rightarrow>
            (case n_fopen child of
               None \<Rightarrow> [Perror]
             | Some f \<Rightarrow> [Fopen buffer, Sem_wait, Pthread_create f])
            @ (if mode = S_IFDIR then ls buffer child else []))
     @ while_readdir path entries"

section \<open>The entry point: main\<close>

text \<open>
  \<open>atoi\<close> of the C library: \<open>(int) strtol(s, NULL, 10)\<close>. \<open>strtol\<close> skips white
  space, takes an optional sign and the longest run of decimal digits (0 when there is
  none) and saturates at the range of a 64-bit long; the cast to int keeps the low 32
  bits.
\<close>

definition isspace :: "char \<Rightarrow> bool" where
  "isspace c = (c \<in> set [CHR 0x20, CHR 0x09, CHR 0x0A, CHR 0x0B, CHR 0x0C, CHR 0x0D])"

definition isdigit :: "char \<Rightarrow> bool" where
  "isdigit c = (48 \<le> (of_char c :: nat) \<and> (of_char c :: nat) \<le> 57)"

definition strtol :: "string \<Rightarrow> int" where
  "strtol s =
     (let s1 = dropWhile isspace (cstr s);
          neg = (s1 \<noteq> [] \<and> hd s1 = CHR ''-'');
          s2 = (if s1 \<noteq> [] \<and> (hd s1 = CHR ''-'' \<or> hd s1 = CHR ''+'') then tl s1 else s1);
          v = foldl (\<lambda>a c. 10 * a + (int (of_char c) - 48)) 0 (takeWhile isdigit s2)
      in if neg then max (- (2 ^ 63)) (- v) else min (2 ^ 63 - 1) v)"

definition atoi :: "string \<Rightarrow> int" where
  "atoi s = sint (word_of_int (strtol s) :: 32 word)"

text \<open>
  What \<open>getopt(argc, argv, "d:eht:")\<close> returns, call after call, until -1: an option
  with its argument, or \<open>'?'\<close> with \<open>optopt\<close>; \<open>Opt_other\<close> stands for any value
  that reaches the \<open>default\<close> branch.
\<close>

datatype opt = Opt_d string | Opt_e | Opt_h | Opt_t string | Opt_unknown char | Opt_other

datatype status = Exited int | Aborted

text \<open>The calls of printf and fprintf(stderr, ...) that main makes.\<close>

datatype out = Usage | Invalid_threads int | Dir_is string

datatype err = Requires_argument char | Unknown_option char | Unknown_character char

definition isprint :: "char \<Rightarrow> bool" where
  "isprint c = (32 \<le> (of_char c :: nat) \<and> (of_char c :: nat) \<le> 126)"

text \<open>
  The option loop of lines 233 to 265 on the options still to come, with the globals and
  \<open>max_threads\<close> as they stand: either the program ends inside the loop (\<open>Inl\<close>: its
  status, the printf calls made, which put their text into the buffer of stdout, and
  what was written to stderr), or the loop ends with the values set.
\<close>

fun while_getopt :: "int \<Rightarrow> opt list \<Rightarrow> globals \<times> int \<Rightarrow>
    (status \<times> out list \<times> err list) + (globals \<times> int)" where
  "while_getopt num_cores [] (g, max_threads) = Inr (g, max_threads)"
| "while_getopt num_cores (Opt_d optarg # os) (g, max_threads) =
     while_getopt num_cores os (g\<lparr>g_search_dir := Some optarg\<rparr>, max_threads)"
| "while_getopt num_cores (Opt_e # os) (g, max_threads) =
     while_getopt num_cores os (g\<lparr>g_exact := True\<rparr>, max_threads)"
| "while_getopt num_cores (Opt_h # os) (g, max_threads) = Inl (Exited 0, [Usage], [])"
| "while_getopt num_cores (Opt_t optarg # os) (g, max_threads) =
     (let max_threads = atoi optarg in
      if max_threads < 1 \<or> max_threads > num_cores
      then Inl (Aborted, [Invalid_threads num_cores], [])
      else while_getopt num_cores os (g, max_threads))"
| "while_getopt num_cores (Opt_unknown optopt # os) (g, max_threads) =
     Inl (Exited 1, [],
       [if optopt = CHR ''d'' \<or> optopt = CHR ''t'' then Requires_argument optopt
        else if isprint optopt then Unknown_option optopt
        else Unknown_character optopt])"
| "while_getopt num_cores (Opt_other # os) (g, max_threads) = Inl (Aborted, [], [])"

text \<open>
  What has left the buffer of stdout when the process ends. A return from \<open>main\<close>
  and the end of the last thread flush the buffer; \<open>abort()\<close> does not. The message
  of line 247 ends without a newline and is the only text in the buffer when \<open>abort\<close>
  is called, so it is never written.
\<close>

definition flushed :: "status \<Rightarrow> out list \<Rightarrow> out list" where
  "flushed st buffer = (case st of Exited n \<Rightarrow> buffer | Aborted \<Rightarrow> [])"

text \<open>
  A whole run of the walk thread: how the process ends, what main has written to stdout
  and to stderr, the value the semaphore was initialised with, the globals the searches
  read, and the walk.
\<close>

record run =
  status :: status
  stdout_main :: "out list"
  stderr_main :: "err list"
  sem_init :: "int option"
  search :: globals
  walk :: "event list"

text \<open>
  \<open>main\<close>: \<open>num_cores\<close> is the value of \<open>get_nprocs()\<close>, \<open>opts\<close> the options
  \<open>getopt\<close> finds, \<open>cwd\<close> what \<open>getcwd\<close> stores, \<open>terms\<close> the arguments from
  \<open>optind\<close> on, and \<open>fs\<close> the node a start path leads to. The walk thread ends in
  \<open>pthread_exit(0)\<close>: the process ends with status 0 once the last thread has ended.
\<close>

definition main :: "int \<Rightarrow> opt list \<Rightarrow> string \<Rightarrow> string list \<Rightarrow> (string \<Rightarrow> node) \<Rightarrow> run" where
  "main num_cores opts cwd terms fs =
     (let g0 = \<lparr>g_search_dir = None, g_exact = False, g_search_terms = []\<rparr> in
      case while_getopt num_cores opts (g0, num_cores) of
        Inl (st, outs, errs) \<Rightarrow>
          \<lparr>status = st, stdout_main = flushed st outs, stderr_main = errs, sem_init = None,
           search = g0, walk = []\<rparr>
      | Inr (g, max_threads) \<Rightarrow>
          let dir = (case g_search_dir g of None \<Rightarrow> cwd | Some d \<Rightarrow> d);
              g1 = g\<lparr>g_search_dir := Some dir, g_search_terms := terms\<rparr>
          in \<lparr>status = Exited 0, stdout_main = flushed (Exited 0) [Dir_is dir], stderr_main = [],
              sem_init = Some max_threads, search = g1, walk = ls dir (fs dir)\<rparr>)"

text \<open>
  The diagnostics of a walk, and the match records its searches print (listed in the
  order the searches were started; searches of different files run concurrently).
\<close>

definition diagnostics :: "event list \<Rightarrow> nat" where
  "diagnostics tr = length (filter (\<lambda>e. e = Perror) tr)"

fun task_output :: "globals \<Rightarrow> (string \<Rightarrow> string option) \<Rightarrow> event \<Rightarrow> string list" where
  "task_output g proc (Pthread_create f) = analyze_file g proc f"
| "task_output g proc e = []"

definition matches :: "globals \<Rightarrow> (string \<Rightarrow> string option) \<Rightarrow> event list \<Rightarrow> string list" where
  "matches g proc tr = concat (map (task_output g proc) tr)"

section \<open>The Concurrency Limiter: the semaphore\<close>

text \<open>
  The threads interleave. The state of a run: the events the walk thread still has to
  perform, the value of the semaphore, the number of search threads that have not yet
  reached \<open>sem_post\<close> (line 160), and the number that are between \<open>sem_post\<close> and
  the return of \<open>fclose\<close> (line 161). A search thread holds its stream open in both.
\<close>

record sched =
  todo :: "event list"
  sem :: nat
  scanning :: nat
  closing :: nat

text \<open>
  One step of one thread. The walk thread performs its next event; \<open>sem_wait\<close> is
  enabled only while the semaphore is positive. A scanning thread posts; a closing
  thread closes its stream and ends. \<open>None\<close>: the step is not enabled.
\<close>

datatype action = Walk | Post | Close

fun step :: "sched \<Rightarrow> action \<Rightarrow> sched option" where
  "step s Walk =
     (case todo s of
        [] \<Rightarrow> None
      | Sem_wait # es \<Rightarrow> if sem s = 0 then None else Some (s\<lparr>todo := es, sem := sem s - 1\<rparr>)
      | Pthread_create f # es \<Rightarrow> Some (s\<lparr>todo := es, scanning := scanning s + 1\<rparr>)
      | e # es \<Rightarrow> Some (s\<lparr>todo := es\<rparr>))"
| "step s Post =
     (if scanning s = 0 then None
      else Some (s\<lparr>sem := sem s + 1, scanning := scanning s - 1, closing := closing s + 1\<rparr>))"
| "step s Close =
     (if closing s = 0 then None else Some (s\<lparr>closing := closing s - 1\<rparr>))"

fun steps :: "sched \<Rightarrow> action list \<Rightarrow> sched option" where
  "steps s [] = Some s"
| "steps s (a # as) = (case step s a of None \<Rightarrow> None | Some s1 \<Rightarrow> steps s1 as)"

text \<open>
  The start of a walk with the semaphore initialised to \<open>k\<close> (line 267), the value
  of \<open>max_threads\<close>.
\<close>

definition start :: "nat \<Rightarrow> event list \<Rightarrow> sched" where
  "start k tr = \<lparr>todo = tr, sem = k, scanning = 0, closing = 0\<rparr>"

text \<open>The streams that search threads hold open.\<close>

definition open_handles :: "sched \<Rightarrow> nat" where
  "open_handles s = scanning s + closing s"

section \<open>Notions the properties are stated with\<close>

text \<open>
  The chunks the successive \<open>fgets\<close> calls of the loop of line 128 store, in order.
\<close>

function chunks :: "string \<Rightarrow> string list" where
  "chunks file = (case fgets line_sz file of None \<Rightarrow> [] | Some (line, rest) \<Rightarrow> line # chunks rest)"
  by pat_completeness auto
termination
  by (relation "measure length")
     (auto simp: fgets_def line_sz_def Let_def numeral_eq_Suc neq_Nil_conv split: if_splits)

declare chunks.simps [simp del]

text \<open>
  What one iteration of the loop prints for a chunk when it is entered with the line
  counter \<open>n\<close> (and \<open>found\<close> equal to 0, as it is at every iteration).
\<close>

definition report :: "globals \<Rightarrow> string option \<Rightarrow> 32 word \<Rightarrow> string \<Rightarrow> string list" where
  "report g ptest n line =
     printed (loop_body g ptest line \<lparr>line_num = n, found = 0, printed = []\<rparr>)"

text \<open>
  The words of a line as the specification describes them, not as \<open>strtok_r\<close> computes
  them: each maximal run of characters outside the delimiter set, in order.
\<close>

fun spec_words :: "string \<Rightarrow> string list" where
  "spec_words [] = []"
| "spec_words (c # cs) =
     (if c \<in> set delimit then spec_words cs
      else if cs = [] \<or> hd cs \<in> set delimit then [c] # spec_words cs
      else (case spec_words cs of [] \<Rightarrow> [[c]] | w # ws \<Rightarrow> (c # w) # ws))"

text \<open>A word matches when the comparison with some term gives 0.\<close>

definition matching :: "globals \<Rightarrow> string \<Rightarrow> bool" where
  "matching g word = (\<exists>t \<in> set (g_search_terms g). compare (g_exact g) word t = 0)"

text \<open>
  In a walk every \<open>pthread_create\<close> comes right behind its \<open>sem_wait\<close>, and every
  \<open>sem_wait\<close> is followed by its \<open>pthread_create\<close> (lines 204 and 205).
\<close>

fun paired :: "event list \<Rightarrow> bool" where
  "paired [] = True"
| "paired (Sem_wait # Pthread_create f # es) = paired es"
| "paired (Sem_wait # es) = False"
| "paired (Pthread_create f # es) = False"
| "paired (e # es) = paired es"

text \<open>
  The invariant of the semaphore: the slots left and the threads that have not posted
  add up to the initial value, less the one slot the walk thread holds between
  \<open>sem_wait\<close> and \<open>pthread_create\<close>.
\<close>

definition limiter_inv :: "nat \<Rightarrow> sched \<Rightarrow> bool" where
  "limiter_inv k s =
     ((paired (todo s) \<and> sem s + scanning s = k) \<or>
      (\<exists>f es. todo s = Pthread_create f # es \<and> paired es \<and> sem s + scanning s + 1 = k))"

section \<open>The tokenizer\<close>

lemma spec_words_word: "c \<notin> set delimit \<Longrightarrow>
   spec_words (c # cs) = (c # takeWhile (\<lambda>c. c \<notin> set delimit) cs) # spec_words (dropWhile (\<lambda>c. c \<notin> set delimit) cs)"
proof (induction cs arbitrary: c)
  case Nil
  then show ?case by simp
next
  case (Cons d ds)
  show ?case
  proof (cases "d \<in> set delimit")
    case True
    with Cons.prems show ?thesis by simp
  next
    case False
    from Cons.IH [OF False] Cons.prems False show ?thesis by simp
  qed
qed

lemma spec_words_skip: "spec_words (dropWhile (\<lambda>c. c \<in> set delimit) s) = spec_words s"
  by (induction s) auto

lemma spec_words_drop1: "spec_words (drop 1 (dropWhile (\<lambda>c. c \<notin> set delimit) s)) = spec_words (dropWhile (\<lambda>c. c \<notin> set delimit) s)"
proof (cases "dropWhile (\<lambda>c. c \<notin> set delimit) s")
  case Nil
  show ?thesis unfolding Nil by simp
next
  case (Cons d ds)
  then have "d \<in> set delimit" using hd_dropWhile [of "\<lambda>c. c \<notin> set delimit" s] by auto
  then show ?thesis unfolding Cons by simp
qed

lemma strtok_r_None: "strtok_r s delimit = None \<Longrightarrow> spec_words s = []"
proof -
  assume "strtok_r s delimit = None"
  then have "dropWhile (\<lambda>c. c \<in> set delimit) s = []"
    by (simp add: strtok_r_def Let_def split: if_splits)
  then have "spec_words (dropWhile (\<lambda>c. c \<in> set delimit) s) = spec_words []" by (simp only:)
  then show ?thesis by (simp only: spec_words_skip spec_words.simps)
qed

lemma strtok_r_Some: "strtok_r s delimit = Some (w, sv) \<Longrightarrow> spec_words s = w # spec_words sv"
proof -
  assume a: "strtok_r s delimit = Some (w, sv)"
  let ?s1 = "dropWhile (\<lambda>c. c \<in> set delimit) s"
  from a have ne: "?s1 \<noteq> []" and w: "w = takeWhile (\<lambda>c. c \<notin> set delimit) ?s1"
    and sv: "sv = drop 1 (dropWhile (\<lambda>c. c \<notin> set delimit) ?s1)"
    by (auto simp: strtok_r_def Let_def split: if_splits)
  from ne obtain c cs where s1: "?s1 = c # cs" by (cases ?s1) auto
  then have c: "c \<notin> set delimit" using hd_dropWhile [of "\<lambda>c. c \<in> set delimit" s] by auto
  have "spec_words s = spec_words ?s1" by (simp only: spec_words_skip)
  also have "\<dots> = (c # takeWhile (\<lambda>c. c \<notin> set delimit) cs) # spec_words (dropWhile (\<lambda>c. c \<notin> set delimit) cs)"
    unfolding s1 by (rule spec_words_word [OF c])
  also have "c # takeWhile (\<lambda>c. c \<notin> set delimit) cs = w" unfolding w s1 using c by simp
  also have "dropWhile (\<lambda>c. c \<notin> set delimit) cs = dropWhile (\<lambda>c. c \<notin> set delimit) ?s1"
    unfolding s1 using c by simp
  also have "spec_words \<dots> = spec_words sv" unfolding sv by (simp only: spec_words_drop1)
  finally show ?thesis .
qed

lemma for_terms_eq:
  "found l = 0 \<Longrightarrow> for_terms ex p ml w ts l =
     (if \<exists>t\<in>set ts. compare ex w t = 0
      then l\<lparr>found := 1, printed := printed l @ [match_record p (line_num l) ml]\<rparr> else l)"
  by (induction ts) (auto simp: Let_def)

lemma while_words_eq:
  "found l = 0 \<Longrightarrow> while_words g p ml tok l =
     l\<lparr>printed := printed l @ map (\<lambda>w. match_record p (line_num l) ml)
         (filter (matching g) (case tok of None \<Rightarrow> [] | Some (w, sv) \<Rightarrow> w # spec_words sv))\<rparr>"
proof (induction g p ml tok l rule: while_words.induct)
  case (1 g ptest match_line l)
  then show ?case by simp
next
  case (2 g ptest match_line word save l)
  let ?l1 = "(for_terms (g_exact g) ptest match_line word (g_search_terms g) l)\<lparr>found := 0\<rparr>"
  have f: "found ?l1 = 0" by simp
  note IH = "2.IH" [OF f]
  have l1: "?l1 = l\<lparr>printed := printed l @ (if matching g word then [match_record ptest (line_num l) match_line] else [])\<rparr>"
    using "2.prems" by (simp add: for_terms_eq matching_def)
  have tok: "(case strtok_r save delimit of None \<Rightarrow> [] | Some (w, sv) \<Rightarrow> w # spec_words sv) = spec_words save"
    by (auto split: option.splits simp: strtok_r_None strtok_r_Some)
  show ?case
    by (simp only: while_words.simps IH tok) (simp add: l1)
qed

lemma loop_body_eq:
  "found l = 0 \<Longrightarrow> loop_body g p line l =
     l\<lparr>line_num := line_num l + 1,
       printed := printed l @ map (\<lambda>w. match_record p (line_num l) (cstr line))
         (filter (matching g) (spec_words (cstr line)))\<rparr>"
proof -
  assume f: "found l = 0"
  have tok: "(case strtok_r (cstr line) delimit of None \<Rightarrow> [] | Some (w, sv) \<Rightarrow> w # spec_words sv) = spec_words (cstr line)"
    by (auto split: option.splits simp: strtok_r_None strtok_r_Some)
  show ?thesis
    by (simp add: loop_body_def Let_def while_words_eq [OF f] tok)
qed

lemma spec_words_Cons_nonempty:
  assumes "c \<notin> set delimit"
  shows "spec_words (c # cs) \<noteq> []"
  unfolding spec_words_word [OF assms] by (rule list.distinct(2))

lemma spec_words_append_left:
  "a = [] \<or> last a \<in> set delimit \<Longrightarrow> spec_words (a @ b) = spec_words a @ spec_words b"
proof (induction a)
  case Nil
  then show ?case by simp
next
  case (Cons c cs)
  show ?case
  proof (cases "cs = []")
    case True
    with Cons.prems show ?thesis by simp
  next
    case False
    with Cons.prems have "last cs \<in> set delimit" by simp
    then have IH: "spec_words (cs @ b) = spec_words cs @ spec_words b" using Cons.IH by simp
    obtain d ds where cs: "cs = d # ds" using False by (cases cs) auto
    show ?thesis
    proof (cases "d \<in> set delimit")
      case True
      then show ?thesis using IH by (simp add: cs)
    next
      case nd: False
      have "spec_words cs \<noteq> []" unfolding cs by (rule spec_words_Cons_nonempty [OF nd])
      then obtain w ws where r: "spec_words (d # ds) = w # ws" unfolding cs by (cases "spec_words (d # ds)") auto
      from IH have "spec_words (d # ds @ b) = (w # ws) @ spec_words b" using r by (simp add: cs)
      then show ?thesis using nd r by (simp add: cs)
    qed
  qed
qed

lemma spec_words_append_right:
  "b = [] \<or> hd b \<in> set delimit \<Longrightarrow> spec_words (a @ b) = spec_words a @ spec_words b"
proof (induction a)
  case Nil
  then show ?case by simp
next
  case (Cons c cs)
  note IH = Cons.IH [OF Cons.prems]
  show ?case
  proof (cases cs)
    case Nil
    with Cons.prems show ?thesis by (cases b) auto
  next
    case cs: (Cons d ds)
    show ?thesis
    proof (cases "d \<in> set delimit")
      case True
      then show ?thesis using IH by (simp add: cs)
    next
      case nd: False
      obtain w ws where r: "spec_words (d # ds) = w # ws"
        using spec_words_Cons_nonempty [OF nd, of ds] by (cases "spec_words (d # ds)") auto
      from IH have "spec_words (d # ds @ b) = (w # ws) @ spec_words b" using r by (simp add: cs)
      then show ?thesis using nd r by (simp add: cs)
    qed
  qed
qed

lemma spec_words_single:
  assumes "w \<noteq> []" and "\<forall>c\<in>set w. c \<notin> set delimit"
  shows "spec_words w = [w]"
proof -
  from assms(1) obtain c cs where w: "w = c # cs" by (cases w) auto
  with assms(2) have c: "c \<notin> set delimit" and cs: "\<forall>c\<in>set cs. c \<notin> set delimit" by auto
  from cs have tw: "takeWhile (\<lambda>c. c \<notin> set delimit) cs = cs"
    and dw: "dropWhile (\<lambda>c. c \<notin> set delimit) cs = []"
    by auto
  show ?thesis unfolding w spec_words_word [OF c] tw dw by simp
qed

lemma spec_words_complete:
  assumes "s = pre @ w @ post" and "w \<noteq> []" and "\<forall>c\<in>set w. c \<notin> set delimit"
    and "pre = [] \<or> last pre \<in> set delimit" and "post = [] \<or> hd post \<in> set delimit"
  shows "w \<in> set (spec_words s)"
proof -
  have "spec_words s = spec_words pre @ spec_words (w @ post)" unfolding assms(1) by (rule spec_words_append_left [OF assms(4)])
  also have "spec_words (w @ post) = spec_words w @ spec_words post" by (rule spec_words_append_right [OF assms(5)])
  also have "spec_words w = [w]" by (rule spec_words_single [OF assms(2,3)])
  finally show ?thesis by simp
qed

lemma spec_words_sound:
  "w \<in> set (spec_words s) \<Longrightarrow>
   \<exists>pre post. s = pre @ w @ post \<and> w \<noteq> [] \<and> (\<forall>c\<in>set w. c \<notin> set delimit) \<and>
     (pre = [] \<or> last pre \<in> set delimit) \<and> (post = [] \<or> hd post \<in> set delimit)"
proof (induction "length s" arbitrary: s rule: less_induct)
  case less
  let ?ds = "takeWhile (\<lambda>c. c \<in> set delimit) s"
  let ?s1 = "dropWhile (\<lambda>c. c \<in> set delimit) s"
  let ?w0 = "takeWhile (\<lambda>c. c \<notin> set delimit) ?s1"
  let ?rest = "dropWhile (\<lambda>c. c \<notin> set delimit) ?s1"
  have rs: "spec_words ?s1 = spec_words s" by (rule spec_words_skip)
  have s1: "?s1 \<noteq> []" using less.prems rs by (cases ?s1) auto
  then obtain c cs where c: "?s1 = c # cs" by (cases ?s1) auto
  then have nd: "c \<notin> set delimit" using hd_dropWhile [of "\<lambda>c. c \<in> set delimit" s] by auto
  have w0: "?w0 = c # takeWhile (\<lambda>c. c \<notin> set delimit) cs" unfolding c using nd by simp
  have rest: "?rest = dropWhile (\<lambda>c. c \<notin> set delimit) cs" unfolding c using nd by simp
  have r: "spec_words s = ?w0 # spec_words ?rest"
    unfolding rs [symmetric] w0 rest unfolding c by (rule spec_words_word [OF nd])
  have s: "s = ?ds @ ?w0 @ ?rest" by simp
  have ds: "?ds = [] \<or> last ?ds \<in> set delimit"
  proof (cases "?ds = []")
    case False
    then have "last ?ds \<in> set ?ds" by (rule last_in_set)
    then show ?thesis using set_takeWhileD by fastforce
  qed simp
  have hd_rest: "?rest = [] \<or> hd ?rest \<in> set delimit"
    using hd_dropWhile [of "\<lambda>c. c \<notin> set delimit" ?s1] by auto
  have w0_nd: "\<forall>c\<in>set ?w0. c \<notin> set delimit" using set_takeWhileD by fastforce
  have w0_ne: "?w0 \<noteq> []" by (simp add: w0)
  from less.prems r have "w = ?w0 \<or> w \<in> set (spec_words ?rest)" by simp
  then show ?case
  proof
    assume "w = ?w0"
    with s ds hd_rest w0_nd w0_ne show ?thesis by blast
  next
    assume w: "w \<in> set (spec_words ?rest)"
    have "length ?rest < length s"
    proof -
      have "length (?ds @ ?w0 @ ?rest) = length s" by (simp only: takeWhile_dropWhile_id)
      then have "length s = length ?ds + length ?w0 + length ?rest" by (simp only: length_append)
      moreover have "0 < length ?w0" using w0_ne by (metis length_greater_0_conv)
      ultimately show ?thesis by linarith
    qed
    from less.hyps [OF this w] obtain pre post where
      p: "?rest = pre @ w @ post" "w \<noteq> []" "\<forall>c\<in>set w. c \<notin> set delimit"
         "pre = [] \<or> last pre \<in> set delimit" "post = [] \<or> hd post \<in> set delimit"
      by blast
    have "pre \<noteq> []"
    proof
      assume "pre = []"
      with p(1,2) have "hd ?rest = hd w" "?rest \<noteq> []" by auto
      with hd_rest have "hd w \<in> set delimit" by auto
      moreover have "hd w \<in> set w" using p(2) by simp
      ultimately show False using p(3) by blast
    qed
    with p(4) have l: "last (?ds @ ?w0 @ pre) \<in> set delimit" by simp
    have "s = (?ds @ ?w0 @ pre) @ w @ post" using s p(1) by (metis append.assoc)
    with l p(2,3,5) show ?thesis by blast
  qed
qed

section \<open>The comparison\<close>

lemma of_char_zero: "(of_char c :: nat) = 0 \<longleftrightarrow> c = CHR 0x00"
  using of_char_eq_iff [of c "CHR 0x00", where ?'a = nat] by simp

lemma of_char_pos: "0 < (of_char c :: nat) \<longleftrightarrow> c \<noteq> CHR 0x00"
  using of_char_zero [of c] by auto

lemma int_of_char_eq: "int (of_char a) = int (of_char b) \<longleftrightarrow> a = b"
  using of_char_eq_iff [of a b, where ?'a = nat] by simp

lemma strcmp_zero: "strcmp a b = 0 \<longleftrightarrow> cstr a = cstr b"
proof (induction a b rule: strcmp.induct)
  case 1
  show ?case by (simp add: cstr_def)
next
  case (2 b bs)
  show ?case by (auto simp: cstr_def of_char_zero)
next
  case (3 a as)
  show ?case by (auto simp: cstr_def of_char_zero)
next
  case (4 a as b bs)
  then show ?case by (auto simp: cstr_def int_of_char_eq of_char_pos)
qed

lemma tolower_zero: "tolower c = CHR 0x00 \<longleftrightarrow> c = CHR 0x00"
proof
  assume t: "tolower c = CHR 0x00"
  show "c = CHR 0x00"
  proof (cases "65 \<le> (of_char c :: nat) \<and> (of_char c :: nat) \<le> 90")
    case True
    then have "(of_char (tolower c) :: nat) = (of_char c + 32) mod 256"
      by (simp add: tolower_def Let_def of_char_of)
    also have "\<dots> = of_char c + 32" using True by simp
    finally show ?thesis using t by simp
  next
    case False
    then show ?thesis using t by (auto simp: tolower_def Let_def split: if_splits)
  qed
next
  assume "c = CHR 0x00"
  then show "tolower c = CHR 0x00" by (simp add: tolower_def)
qed

lemma strcasecmp_zero: "strcasecmp a b = 0 \<longleftrightarrow> map tolower (cstr a) = map tolower (cstr b)"
proof (induction a b rule: strcasecmp.induct)
  case 1
  show ?case by (simp add: cstr_def)
next
  case (2 b bs)
  show ?case using tolower_zero [of b] by (auto simp: cstr_def of_char_zero)
next
  case (3 a as)
  show ?case using tolower_zero [of a] by (auto simp: cstr_def of_char_zero)
next
  case (4 a as b bs)
  show ?case
  proof (cases "tolower a = tolower b")
    case False
    then have "a \<noteq> CHR 0x00 \<or> b \<noteq> CHR 0x00" by auto
    with False show ?thesis using tolower_zero [of a] tolower_zero [of b]
      by (auto simp: cstr_def int_of_char_eq of_char_pos)
  next
    case True
    then have ab: "a = CHR 0x00 \<longleftrightarrow> b = CHR 0x00" using tolower_zero [of a] tolower_zero [of b] by auto
    show ?thesis
    proof (cases "a = CHR 0x00")
      case z: True
      with ab show ?thesis by (simp add: cstr_def)
    next
      case nz: False
      with ab have "b \<noteq> CHR 0x00" by simp
      with nz True "4.IH" show ?thesis by (simp add: cstr_def)
    qed
  qed
qed

lemma compare_zero:
  "compare ex w t = 0 \<longleftrightarrow> (if ex then cstr w = cstr t else map tolower (cstr w) = map tolower (cstr t))"
  by (simp add: compare_def strcmp_zero strcasecmp_zero)

section \<open>Chunks and the search of a file\<close>

lemma fgets_shorter:
  "fgets line_sz file = Some (line, rest) \<Longrightarrow> length rest < length file"
  by (auto simp: fgets_def line_sz_def Let_def numeral_eq_Suc neq_Nil_conv split: if_splits)

lemma fgets_read_le: "length (fgets_read m s) \<le> m"
  by (induction m s rule: fgets_read.induct) auto

lemma fgets_read_take: "take (length (fgets_read m s)) s = fgets_read m s"
  by (induction m s rule: fgets_read.induct) auto

lemma fgets_read_newline: "CHR 0x0A \<notin> set (butlast (fgets_read m s))"
  by (induction m s rule: fgets_read.induct) auto

lemma fgets_read_full: "CHR 0x0A \<notin> set a \<Longrightarrow> fgets_read (length a) (a @ b) = a"
  by (induction a) auto

lemma fgets_Some:
  assumes "fgets line_sz file = Some (line, rest)"
  shows "line @ rest = file" and "0 < length line" and "length line \<le> 99"
    and "CHR 0x0A \<notin> set (butlast line)"
proof -
  from assms have ne: "file \<noteq> []" and line: "line = fgets_read 99 file"
    and rest: "rest = drop (length line) file"
    by (auto simp: fgets_def line_sz_def Let_def split: if_splits)
  show "line @ rest = file"
    unfolding rest using fgets_read_take [of 99 "file"] append_take_drop_id [of "length line" "file"]
    by (simp add: line)
  show "0 < length line" using ne unfolding line by (cases "file") (auto simp: numeral_eq_Suc)
  show "length line \<le> 99" unfolding line by (rule fgets_read_le)
  show "CHR 0x0A \<notin> set (butlast line)" unfolding line by (rule fgets_read_newline)
qed

lemma chunks_Nil: "chunks [] = []"
  by (simp add: chunks.simps fgets_def)

lemma chunks_Some: "fgets line_sz file = Some (line, rest) \<Longrightarrow> chunks file = line # chunks rest"
  by (subst chunks.simps) simp

lemma chunks_None: "fgets line_sz file = None \<Longrightarrow> chunks file = []"
  by (subst chunks.simps) simp

lemma chunks_concat: "concat (chunks file) = file"
proof (induction "length file" arbitrary: "file" rule: less_induct)
  case less
  show ?case
  proof (cases "fgets line_sz file")
    case None
    then have "file = []" by (simp add: fgets_def Let_def split: if_splits)
    then show ?thesis by (simp add: chunks_Nil)
  next
    case (Some a)
    obtain line rest where a: "a = (line, rest)" by (cases a)
    note f = Some [unfolded a]
    from less [OF fgets_shorter [OF f]] fgets_Some(1) [OF f] show ?thesis
      by (simp add: chunks_Some [OF f])
  qed
qed

lemma chunks_bound:
  "c \<in> set (chunks file) \<Longrightarrow> 0 < length c \<and> length c \<le> 99 \<and> CHR 0x0A \<notin> set (butlast c)"
proof (induction "length file" arbitrary: "file" rule: less_induct)
  case less
  show ?case
  proof (cases "fgets line_sz file")
    case None
    with less.prems show ?thesis by (simp add: chunks_None)
  next
    case (Some a)
    obtain line rest where a: "a = (line, rest)" by (cases a)
    note f = Some [unfolded a]
    from less.prems have "c = line \<or> c \<in> set (chunks rest)" by (simp add: chunks_Some [OF f])
    then show ?thesis
    proof
      assume "c = line"
      with fgets_Some [OF f] show ?thesis by simp
    next
      assume "c \<in> set (chunks rest)"
      then show ?thesis by (rule less.hyps [OF fgets_shorter [OF f]])
    qed
  qed
qed

lemma fgets_read_stops:
  "length (fgets_read m s) = m \<or> fgets_read m s = s \<or>
   (fgets_read m s \<noteq> [] \<and> last (fgets_read m s) = CHR 0x0A)"
  by (induction m s rule: fgets_read.induct) auto

lemma fgets_stops:
  assumes "fgets line_sz file = Some (line, rest)" and "rest \<noteq> []"
  shows "length line = 99 \<or> last line = CHR 0x0A"
proof -
  from assms(1) have line: "line = fgets_read 99 file" and rest: "rest = drop (length line) file"
    by (auto simp: fgets_def line_sz_def Let_def split: if_splits)
  from assms(2) rest have "line \<noteq> file" by auto
  with fgets_read_stops [of 99 "file"] show ?thesis unfolding line by auto
qed

lemma chunks_full:
  "Suc i < length (chunks file) \<Longrightarrow> length (chunks file ! i) = 99 \<or> last (chunks file ! i) = CHR 0x0A"
proof (induction "length file" arbitrary: "file" i rule: less_induct)
  case less
  show ?case
  proof (cases "fgets line_sz file")
    case None
    with less.prems show ?thesis by (simp add: chunks_None)
  next
    case (Some a)
    obtain line rest where a: "a = (line, rest)" by (cases a)
    note f = Some [unfolded a]
    note c = chunks_Some [OF f]
    show ?thesis
    proof (cases i)
      case 0
      from less.prems have "chunks rest \<noteq> []" unfolding c by auto
      then have "rest \<noteq> []" using chunks_Nil by auto
      from fgets_stops [OF f this] show ?thesis unfolding c 0 by simp
    next
      case (Suc j)
      from less.prems have "Suc j < length (chunks rest)" unfolding c Suc by simp
      from less.hyps [OF fgets_shorter [OF f] this] show ?thesis unfolding c Suc by simp
    qed
  qed
qed

lemma chunks_split:
  assumes "length a = 99" and "CHR 0x0A \<notin> set a"
  shows "chunks (a @ b) = a # chunks b"
proof -
  have "fgets_read 99 (a @ b) = a" using fgets_read_full [OF assms(2), of b] assms(1) by simp
  moreover have "a @ b \<noteq> []" using assms(1) by auto
  ultimately have "fgets line_sz (a @ b) = Some (a, b)"
    by (simp add: fgets_def line_sz_def Let_def)
  then show ?thesis by (rule chunks_Some)
qed

lemma report_eq:
  "report g p n c = map (\<lambda>w. match_record p n (cstr c)) (filter (matching g) (spec_words (cstr c)))"
  by (simp add: report_def loop_body_eq)

lemma loop_body_report:
  "found l = 0 \<Longrightarrow> loop_body g p c l =
     l\<lparr>line_num := line_num l + 1, printed := printed l @ report g p (line_num l) c\<rparr>"
  by (simp add: report_eq loop_body_eq)

lemma while_fgets_eq:
  "found l = 0 \<Longrightarrow> line_num l = word_of_nat n \<Longrightarrow>
   printed (while_fgets g p file l) =
     printed l @ concat (map (\<lambda>(k, c). report g p (word_of_nat k) c) (enumerate n (chunks file)))"
proof (induction "length file" arbitrary: "file" l n rule: less_induct)
  case less
  show ?case
  proof (cases "fgets line_sz file")
    case None
    then show ?thesis by (simp add: chunks_None while_fgets.simps)
  next
    case (Some a)
    obtain line rest where a: "a = (line, rest)" by (cases a)
    note f = Some [unfolded a]
    let ?l1 = "loop_body g p line l"
    have l1: "?l1 = l\<lparr>line_num := line_num l + 1, printed := printed l @ report g p (line_num l) line\<rparr>"
      by (rule loop_body_report [OF less.prems(1)])
    have f1: "found ?l1 = 0" using less.prems(1) by (simp add: l1)
    have n1: "line_num ?l1 = word_of_nat (Suc n)" using less.prems(2) by (simp add: l1)
    have "printed (while_fgets g p file l) = printed (while_fgets g p rest ?l1)"
      by (subst while_fgets.simps) (simp add: f)
    also have "\<dots> = printed ?l1 @ concat (map (\<lambda>(k, c). report g p (word_of_nat k) c) (enumerate (Suc n) (chunks rest)))"
      by (rule less.hyps [OF fgets_shorter [OF f] f1 n1])
    finally show ?thesis
      using less.prems(2) by (simp add: chunks_Some [OF f] l1)
  qed
qed

lemma analyze_file_eq:
  "analyze_file g proc f =
     concat (map (\<lambda>(k, c). report g (recover_filename proc f) (word_of_nat k) c)
       (enumerate 0 (chunks (snd f))))"
  using while_fgets_eq [of "\<lparr>line_num = 0, found = 0, printed = []\<rparr>" 0 g "recover_filename proc f" "snd f"]
  by (simp add: analyze_file_def Let_def)

section \<open>The walk, the limiter and the options\<close>

lemma while_readdir_append:
  "while_readdir path (a @ b) = while_readdir path a @ while_readdir path b"
proof (induction a)
  case Nil
  show ?case by simp
next
  case (Cons x xs)
  obtain d_name child where x: "x = (d_name, child)" by (cases x)
  show ?case unfolding x using Cons.IH by simp
qed

lemma ls_opendir_fails: "n_opendir n = None \<Longrightarrow> ls path n = [Perror]"
  by (cases n) simp

lemma paired_append: "paired a \<Longrightarrow> paired b \<Longrightarrow> paired (a @ b)"
  by (induction a rule: paired.induct) auto

lemma paired_ls: "paired (ls path n)" and paired_while_readdir: "paired (while_readdir path entries)"
proof (induction path n and path entries rule: ls_while_readdir.induct)
  case (1 path st fo)
  show ?case by simp
next
  case (2 path st fo entries)
  then show ?case by (simp add: paired_append)
next
  case (3 path)
  show ?case by simp
next
  case (4 path d_name child entries)
  show ?case
  proof (cases "d_name = ''..'' \<or> d_name = ''.''")
    case True
    with 4 show ?thesis by simp
  next
    case False
    show ?thesis
    proof (cases "n_stat child")
      case None
      with False 4 show ?thesis by simp
    next
      case (Some mode)
      have rec: "paired (if mode = S_IFDIR then ls (path @ SEPARATOR @ d_name) child else [])"
        using "4.IH"(1) [OF False refl Some] by simp
      have "paired (case n_fopen child of None \<Rightarrow> [Perror]
               | Some f \<Rightarrow> [Fopen (path @ SEPARATOR @ d_name), Sem_wait, Pthread_create f])"
        by (simp split: option.splits)
      with rec "4.IH"(2) False Some show ?thesis
        by (simp add: paired_append Let_def)
    qed
  qed
qed

lemma paired_Cons:
  "paired (e # es) \<Longrightarrow>
    (e = Sem_wait \<and> (\<exists>f es'. es = Pthread_create f # es' \<and> paired es')) \<or>
    (e \<noteq> Sem_wait \<and> (\<forall>f. e \<noteq> Pthread_create f) \<and> paired es)"
  by (induction "e # es" rule: paired.induct) auto

lemma step_inv:
  assumes "limiter_inv k s" and "step s a = Some s'"
  shows "limiter_inv k s'"
proof (cases a)
  case Walk
  show ?thesis
  proof (cases "todo s")
    case Nil
    with assms(2) Walk show ?thesis by simp
  next
    case (Cons e es)
    from assms(1) consider
      (A) "paired (e # es)" "sem s + scanning s = k"
      | (B) f where "e = Pthread_create f" "paired es" "sem s + scanning s + 1 = k"
      unfolding limiter_inv_def Cons by auto
    then show ?thesis
    proof cases
      case A
      from paired_Cons [OF A(1)] show ?thesis
      proof
        assume "e = Sem_wait \<and> (\<exists>f es'. es = Pthread_create f # es' \<and> paired es')"
        then obtain f es' where e: "e = Sem_wait" and es: "es = Pthread_create f # es'" and p: "paired es'"
          by blast
        from assms(2) Walk Cons e have pos: "sem s \<noteq> 0" and s': "s' = s\<lparr>todo := es, sem := sem s - 1\<rparr>"
          by (auto split: if_splits)
        show ?thesis unfolding limiter_inv_def s' using es p pos A(2) by simp
      next
        assume h: "e \<noteq> Sem_wait \<and> (\<forall>f. e \<noteq> Pthread_create f) \<and> paired es"
        with assms(2) Walk Cons have s': "s' = s\<lparr>todo := es\<rparr>" by (cases e) auto
        show ?thesis unfolding limiter_inv_def s' using h A(2) by simp
      qed
    next
      case B
      with assms(2) Walk Cons have s': "s' = s\<lparr>todo := es, scanning := scanning s + 1\<rparr>" by simp
      show ?thesis unfolding limiter_inv_def s' using B by simp
    qed
  qed
next
  case Post
  with assms(2) have sc: "scanning s \<noteq> 0"
    and s': "s' = s\<lparr>sem := sem s + 1, scanning := scanning s - 1, closing := closing s + 1\<rparr>"
    by (auto split: if_splits)
  show ?thesis using assms(1) sc unfolding limiter_inv_def s' by auto
next
  case Close
  with assms(2) have s': "s' = s\<lparr>closing := closing s - 1\<rparr>" by (auto split: if_splits)
  show ?thesis using assms(1) unfolding limiter_inv_def s' by auto
qed

lemma steps_inv: "limiter_inv k s \<Longrightarrow> steps s as = Some s' \<Longrightarrow> limiter_inv k s'"
proof (induction as arbitrary: s)
  case Nil
  then show ?case by simp
next
  case (Cons a as)
  then show ?case by (auto split: option.splits dest: step_inv)
qed

lemma start_inv: "limiter_inv k (start k (ls path n))"
  by (simp add: limiter_inv_def start_def paired_ls)

lemma while_getopt_append:
  "while_getopt nc (pre @ rest) c0 =
     (case while_getopt nc pre c0 of Inl x \<Rightarrow> Inl x | Inr c \<Rightarrow> while_getopt nc rest c)"
  by (induction nc pre c0 rule: while_getopt.induct) (auto simp: Let_def)


section \<open>Lines without a matching word, and the line counter\<close>

lemma for_terms_no_match:
  "\<forall>t\<in>set ts. compare ex w t \<noteq> 0 \<Longrightarrow> for_terms ex p ml w ts l = l"
  by (induction ts) (auto simp: Let_def)

lemma while_words_no_match:
  "\<forall>w\<in>set (case tok of None \<Rightarrow> [] | Some (w, sv) \<Rightarrow> w # spec_words sv). \<not> matching g w \<Longrightarrow>
   printed (while_words g p ml tok l) = printed l"
proof (induction g p ml tok l rule: while_words.induct)
  case (1 g ptest match_line l)
  show ?case by simp
next
  case (2 g ptest match_line word save l)
  have tok: "(case strtok_r save delimit of None \<Rightarrow> [] | Some (w, sv) \<Rightarrow> w # spec_words sv) = spec_words save"
    by (auto split: option.splits simp: strtok_r_None strtok_r_Some)
  from "2.prems" have w: "\<forall>t\<in>set (g_search_terms g). compare (g_exact g) word t \<noteq> 0"
    and rest: "\<forall>w\<in>set (spec_words save). \<not> matching g w"
    by (auto simp: matching_def)
  have "printed (while_words g ptest match_line (strtok_r save delimit)
          ((for_terms (g_exact g) ptest match_line word (g_search_terms g) l)\<lparr>found := 0\<rparr>))
        = printed ((for_terms (g_exact g) ptest match_line word (g_search_terms g) l)\<lparr>found := 0\<rparr>)"
    by (rule "2.IH") (simp add: tok rest)
  then show ?case by (simp add: for_terms_no_match [OF w])
qed

lemma loop_body_no_match:
  assumes "\<forall>w\<in>set (spec_words (cstr line)). \<not> matching g w"
  shows "printed (loop_body g p line l) = printed l"
proof -
  have tok: "(case strtok_r (cstr line) delimit of None \<Rightarrow> [] | Some (w, sv) \<Rightarrow> w # spec_words sv)
      = spec_words (cstr line)"
    by (auto split: option.splits simp: strtok_r_None strtok_r_Some)
  have "printed (while_words g p (cstr line) (strtok_r (cstr line) delimit) l) = printed l"
    by (rule while_words_no_match) (simp add: tok assms)
  then show ?thesis by (simp add: loop_body_def Let_def)
qed

lemma sint_line_num: "k < 2 ^ 31 \<Longrightarrow> sint (word_of_nat k :: 32 word) = int k"
  by (simp add: signed_of_nat signed_take_bit_int_eq_self)

lemma loop_body_whole_words:
  assumes "\<forall>pre w post.
      cstr line = pre @ w @ post \<and> w \<noteq> [] \<and> (\<forall>c\<in>set w. c \<notin> set delimit) \<and>
      (pre = [] \<or> last pre \<in> set delimit) \<and> (post = [] \<or> hd post \<in> set delimit)
      \<longrightarrow> (\<forall>t\<in>set (g_search_terms g). compare (g_exact g) w t \<noteq> 0)"
  shows "printed (loop_body g ptest line l) = printed l"
proof (rule loop_body_no_match, rule ballI)
  fix w
  assume "w \<in> set (spec_words (cstr line))"
  from spec_words_sound [OF this] assms
  have "\<forall>t\<in>set (g_search_terms g). compare (g_exact g) w t \<noteq> 0" by blast
  then show "\<not> matching g w" by (simp add: matching_def)
qed

section \<open>The claims\<close>

text \<open>
  Claim C1: a line is reported at most once, also when several of its words match.
  The code does not do that. \<open>found\<close> is set back to 0 after every word (line 151),
  so the guard \<open>!found\<close> of line 143 never holds a report back: the line
  \<open>the cat sat\<close> with the terms \<open>the\<close> and \<open>cat\<close> is printed once for the word
  \<open>the\<close> and once more for the word \<open>cat\<close>.
\<close>

theorem analyze_file_reports_line_per_word:
  "analyze_file \<lparr>g_search_dir = Some ''/root'', g_exact = False, g_search_terms = [''the'', ''cat'']\<rparr>
     (\<lambda>link. if link = ''/proc/self/fd/4'' then Some ''/root/a.txt'' else None)
     (4, ''hello world'' @ [CHR 0x0A] @ ''the cat sat'' @ [CHR 0x0A])
   = [''/root/a.txt:1:the cat sat'' @ [CHR 0x0A, CHR 0x0A],
      ''/root/a.txt:1:the cat sat'' @ [CHR 0x0A, CHR 0x0A]]"
  by code_simp

text \<open>
  Claim C2: an entry that is a directory is never opened and searched as a text file;
  it is handled by exactly one branch. The code does not do that. Every entry whose
  \<open>stat\<close> succeeds is opened with \<open>fopen\<close> and, when that succeeds, given to a
  search thread (lines 198 to 207); only afterwards \<open>S_ISDIR\<close> is tested, and a
  directory is walked as well (lines 209 to 211). For a directory \<open>sub\<close> that
  \<open>fopen\<close> can open (its stream delivers nothing: reading fails), both happen.
\<close>

theorem ls_searches_directory_as_text:
  "ls ''/root'' (Node (Some S_IFDIR) None
       (Some [(''sub'', Node (Some S_IFDIR) (Some (4, [])) (Some []))]))
   = [Opendir ''/root'',
      Fopen ''/root/sub'', Sem_wait, Pthread_create (4, []),
      Opendir ''/root/sub'', Closedir ''/root/sub'',
      Closedir ''/root'']"
  by (simp add: SEPARATOR_def Let_def)

text \<open>
  Claim C3, as stated: at no instant do more than K search threads hold an open stream.
  It fails. A thread posts the semaphore (line 160) before it closes its stream (line
  161), so with K = 1 and two files the walk thread can start the second search while
  the first thread still holds its stream: two streams are open.
\<close>

theorem open_handles_exceed_limit:
  "steps (start 1 (ls ''/root'' (Node (Some S_IFDIR) None
       (Some [(''a'', Node (Some S_IFREG) (Some (4, [])) None),
              (''b'', Node (Some S_IFREG) (Some (5, [])) None)]))))
     [Walk, Walk, Walk, Walk, Post, Walk, Walk, Walk]
   = Some \<lparr>todo = [Closedir ''/root''], sem = 0, scanning = 1, closing = 1\<rparr>
   \<and> open_handles \<lparr>todo = [Closedir ''/root''], sem = 0, scanning = 1, closing = 1\<rparr> = 2"
  by (simp add: start_def open_handles_def SEPARATOR_def Let_def)

text \<open>
  Claim C3, amended: in every interleaving of a walk started with the semaphore at
  \<open>k\<close>, the free slots and the search threads that have not yet released their
  slot never add up to more than \<open>k\<close>: a slot is taken before a thread is started,
  and at most \<open>k\<close> threads are at work before their \<open>sem_post\<close>.
\<close>

theorem limiter_bounds_scanning:
  assumes "steps (start k (ls path n)) as = Some s"
  shows "sem s + scanning s \<le> k \<and> scanning s \<le> k"
  using steps_inv [OF start_inv assms] by (auto simp: limiter_inv_def)

theorem limiter_bounds_scanning_witness:
  "steps (start 1 (ls ''/root'' (Node (Some S_IFDIR) None
       (Some [(''a'', Node (Some S_IFREG) (Some (4, [])) None),
              (''b'', Node (Some S_IFREG) (Some (5, [])) None)]))))
     [Walk, Walk, Walk, Walk, Post, Walk, Walk, Walk]
   = Some \<lparr>todo = [Closedir ''/root''], sem = 0, scanning = 1, closing = 1\<rparr>
   \<and> sem \<lparr>todo = [Closedir ''/root''], sem = 0, scanning = 1, closing = 1\<rparr>
       + scanning \<lparr>todo = [Closedir ''/root''], sem = 0, scanning = 1, closing = 1\<rparr> \<le> 1"
proof -
  let ?root = "Node (Some S_IFDIR) None
       (Some [(''a'', Node (Some S_IFREG) (Some (4, [])) None),
              (''b'', Node (Some S_IFREG) (Some (5, [])) None)])"
  let ?s = "\<lparr>todo = [Closedir ''/root''], sem = 0, scanning = 1, closing = 1\<rparr>"
  have run: "steps (start 1 (ls ''/root'' ?root)) [Walk, Walk, Walk, Walk, Post, Walk, Walk, Walk] = Some ?s"
    by (simp add: start_def SEPARATOR_def Let_def)
  from limiter_bounds_scanning [OF run] run show ?thesis by blast
qed

text \<open>
  Claim C4: a line in which a term occurs only inside a longer token is never reported.
  The code does not do that for every line. The header of prep.c gives the rule (the
  term \<open>the\<close> does not match \<open>theme\<close>), and inside one chunk it holds
  (\<open>loop_body_whole_words\<close>); but a line is read in chunks of 99 bytes, each
  tokenized by itself, so a token that the end of a chunk cuts is compared in parts.
  In the line of 95 letters \<open>x\<close>, a space and \<open>theme park\<close>, the first chunk ends
  behind \<open>the\<close>, and the line is reported for the term \<open>the\<close>.
\<close>

theorem chunk_end_cuts_token:
  "analyze_file \<lparr>g_search_dir = Some ''/root'', g_exact = False, g_search_terms = [''the'']\<rparr>
     (\<lambda>link. if link = ''/proc/self/fd/4'' then Some ''/root/b.txt'' else None)
     (4, replicate 95 (CHR ''x'') @ '' theme park'' @ [CHR 0x0A])
   = [''/root/b.txt:0:'' @ replicate 95 (CHR ''x'') @ '' the'' @ [CHR 0x0A]]"
  by code_simp

text \<open>
  Claim C5: the file is read in chunks of at most 100 bytes with the terminator (99
  bytes of the file); a chunk holds a newline only as its last byte, the chunks make up
  the file, and every chunk but the last ends in a newline or is full. A physical line
  that reaches the cap without a newline is split, its rest being read as the next
  chunks. The chunk with index \<open>k\<close> (from 0) is searched with the line counter
  \<open>k\<close>, a 32-bit int that prints as \<open>k\<close> below \<open>2 ^ 31\<close>.
\<close>

theorem chunks_and_line_numbers:
  "(\<forall>c\<in>set (chunks file). 0 < length c \<and> length c + 1 \<le> line_sz \<and> CHR 0x0A \<notin> set (butlast c)) \<and>
   concat (chunks file) = file \<and>
   (Suc i < length (chunks file) \<longrightarrow>
      length (chunks file ! i) + 1 = line_sz \<or> last (chunks file ! i) = CHR 0x0A) \<and>
   (length a + 1 = line_sz \<and> CHR 0x0A \<notin> set a \<longrightarrow> chunks (a @ b) = a # chunks b) \<and>
   analyze_file g proc (fd, file) =
     concat (map (\<lambda>(k, c). report g (recover_filename proc (fd, file)) (word_of_nat k) c)
       (enumerate 0 (chunks file))) \<and>
   (k < 2 ^ 31 \<longrightarrow> sint (word_of_nat k :: 32 word) = int k)"
proof (intro conjI)
  show "\<forall>c\<in>set (chunks file). 0 < length c \<and> length c + 1 \<le> line_sz \<and> CHR 0x0A \<notin> set (butlast c)"
    using chunks_bound [of _ "file"] by (auto simp: line_sz_def)
  show "concat (chunks file) = file" by (rule chunks_concat)
  show "Suc i < length (chunks file) \<longrightarrow>
      length (chunks file ! i) + 1 = line_sz \<or> last (chunks file ! i) = CHR 0x0A"
    using chunks_full [of i "file"] by (auto simp: line_sz_def)
  show "length a + 1 = line_sz \<and> CHR 0x0A \<notin> set a \<longrightarrow> chunks (a @ b) = a # chunks b"
    using chunks_split [of a b] by (simp add: line_sz_def)
  show "analyze_file g proc (fd, file) =
     concat (map (\<lambda>(k, c). report g (recover_filename proc (fd, file)) (word_of_nat k) c)
       (enumerate 0 (chunks file)))"
    using analyze_file_eq [of g proc "(fd, file)"] by simp
  show "k < 2 ^ 31 \<longrightarrow> sint (word_of_nat k :: 32 word) = int k"
    by (simp add: sint_line_num)
qed

theorem chunks_and_line_numbers_witness:
  "chunks (replicate 99 (CHR ''x'') @ ''the'' @ [CHR 0x0A]) = [replicate 99 (CHR ''x''), ''the'' @ [CHR 0x0A]] \<and>
   analyze_file \<lparr>g_search_dir = Some ''/root'', g_exact = False, g_search_terms = [''the'']\<rparr>
     (\<lambda>link. if link = ''/proc/self/fd/4'' then Some ''/root/a.txt'' else None)
     (4, replicate 99 (CHR ''x'') @ ''the'' @ [CHR 0x0A])
   = [''/root/a.txt:1:the'' @ [CHR 0x0A, CHR 0x0A]]"
proof -
  let ?g = "\<lparr>g_search_dir = Some ''/root'', g_exact = False, g_search_terms = [''the'']\<rparr>"
  let ?proc = "\<lambda>link. if link = ''/proc/self/fd/4'' then Some ''/root/a.txt'' else None"
  let ?a = "replicate 99 (CHR ''x'')"
  let ?b = "''the'' @ [CHR 0x0A]"
  let ?p = "recover_filename ?proc (4, ?a @ ?b)"
  note inst = chunks_and_line_numbers [of "?a @ ?b" 0 ?a ?b ?g ?proc 4 1]
  have b: "chunks ?b = [?b]" by code_simp
  from inst have imp: "length ?a + 1 = line_sz \<and> CHR 0x0A \<notin> set ?a \<longrightarrow>
      chunks (?a @ ?b) = ?a # chunks ?b"
    by blast
  have pre: "length ?a + 1 = line_sz \<and> CHR 0x0A \<notin> set ?a" by (simp add: line_sz_def)
  from imp pre have "chunks (?a @ ?b) = ?a # chunks ?b" by (rule mp)
  then have split: "chunks (?a @ ?b) = [?a, ?b]" unfolding b .
  have r0: "report ?g ?p (word_of_nat 0) ?a = []" by code_simp
  have r1: "report ?g ?p (word_of_nat 1) ?b = [''/root/a.txt:1:the'' @ [CHR 0x0A, CHR 0x0A]]"
    by code_simp
  from inst have "analyze_file ?g ?proc (4, ?a @ ?b) =
     concat (map (\<lambda>(k, c). report ?g ?p (word_of_nat k) c) (enumerate 0 (chunks (?a @ ?b))))"
    by blast
  also have "\<dots> = report ?g ?p (word_of_nat 0) ?a @ report ?g ?p (word_of_nat 1) ?b"
    unfolding split by simp
  finally have "analyze_file ?g ?proc (4, ?a @ ?b) = [''/root/a.txt:1:the'' @ [CHR 0x0A, CHR 0x0A]]"
    unfolding r0 r1 by simp
  with split show ?thesis by blast
qed

text \<open>
  Claim C6, as stated: a match writes the path, the line number and the raw line with
  its trailing newline, and nothing more. It fails: the format of line 145 ends in a
  newline of its own, so the record of the line \<open>the\<close> ends in two newlines.
\<close>

theorem match_record_has_second_newline:
  "analyze_file \<lparr>g_search_dir = Some ''/root'', g_exact = False, g_search_terms = [''the'']\<rparr>
     (\<lambda>link. if link = ''/proc/self/fd/4'' then Some ''/root/a.txt'' else None)
     (4, ''the'' @ [CHR 0x0A])
   = [''/root/a.txt:0:the'' @ [CHR 0x0A, CHR 0x0A]] \<and>
   analyze_file \<lparr>g_search_dir = Some ''/root'', g_exact = False, g_search_terms = [''the'']\<rparr>
     (\<lambda>link. if link = ''/proc/self/fd/4'' then Some ''/root/a.txt'' else None)
     (4, ''the'' @ [CHR 0x0A])
   \<noteq> [''/root/a.txt:0:the'' @ [CHR 0x0A]]"
  by code_simp

text \<open>
  Claim C6, amended: the records a search prints are exactly, for every chunk that holds
  a word equal to a term in the mode set: the name, a colon, the index of the chunk, a
  colon, the chunk as read up to its first NUL byte (with its newline when it has one)
  and one more newline. The name is what printf prints for the pointer
  \<open>recover_filename\<close> returned; when \<open>readlink\<close> gives the target of
  \<open>/proc/self/fd/<descriptor>\<close> for the stream, it is that target cut to 255 bytes.
  How often the record of a chunk is printed is left open here.
\<close>

theorem match_record_format:
  "(r \<in> set (analyze_file g proc f) \<longleftrightarrow>
     (\<exists>k<length (chunks (snd f)).
        (\<exists>w\<in>set (spec_words (cstr (chunks (snd f) ! k))).
           \<exists>t\<in>set (g_search_terms g). compare (g_exact g) w t = 0) \<and>
        r = printf_s (recover_filename proc f) @ '':'' @
            show_int (sint (word_of_nat k :: 32 word)) @ '':'' @
            cstr (chunks (snd f) ! k) @ [CHR 0x0A])) \<and>
   (proc (''/proc/self/fd/'' @ show_int (fileno f)) = Some target \<longrightarrow>
      printf_s (recover_filename proc f) = cstr (take 255 target))"
proof
  let ?cs = "chunks (snd f)"
  let ?p = "recover_filename proc f"
  have "r \<in> set (analyze_file g proc f) \<longleftrightarrow>
      (\<exists>x\<in>set (enumerate 0 ?cs). r \<in> set (report g ?p (word_of_nat (fst x)) (snd x)))"
    by (simp add: analyze_file_eq case_prod_beta)
  also have "\<dots> \<longleftrightarrow> (\<exists>k<length ?cs. r \<in> set (report g ?p (word_of_nat k) (?cs ! k)))"
  proof
    assume "\<exists>x\<in>set (enumerate 0 ?cs). r \<in> set (report g ?p (word_of_nat (fst x)) (snd x))"
    then obtain x where x: "x \<in> set (enumerate 0 ?cs)"
      and r: "r \<in> set (report g ?p (word_of_nat (fst x)) (snd x))"
      by blast
    from x have "fst x < length ?cs" and "snd x = ?cs ! fst x"
      by (simp_all add: in_set_enumerate_eq)
    with r show "\<exists>k<length ?cs. r \<in> set (report g ?p (word_of_nat k) (?cs ! k))"
      by auto
  next
    assume "\<exists>k<length ?cs. r \<in> set (report g ?p (word_of_nat k) (?cs ! k))"
    then obtain k where k: "k < length ?cs"
      and r: "r \<in> set (report g ?p (word_of_nat k) (?cs ! k))"
      by blast
    from k have "(k, ?cs ! k) \<in> set (enumerate 0 ?cs)"
      by (simp add: in_set_enumerate_eq)
    with r show "\<exists>x\<in>set (enumerate 0 ?cs). r \<in> set (report g ?p (word_of_nat (fst x)) (snd x))"
      by force
  qed
  also have "\<dots> \<longleftrightarrow> (\<exists>k<length ?cs.
        (\<exists>w\<in>set (spec_words (cstr (?cs ! k))).
           \<exists>t\<in>set (g_search_terms g). compare (g_exact g) w t = 0) \<and>
        r = printf_s ?p @ '':'' @ show_int (sint (word_of_nat k :: 32 word)) @ '':'' @
            cstr (?cs ! k) @ [CHR 0x0A])"
    by (auto simp: report_eq matching_def match_record_def)
  finally show "r \<in> set (analyze_file g proc f) \<longleftrightarrow> (\<exists>k<length ?cs.
        (\<exists>w\<in>set (spec_words (cstr (?cs ! k))).
           \<exists>t\<in>set (g_search_terms g). compare (g_exact g) w t = 0) \<and>
        r = printf_s ?p @ '':'' @ show_int (sint (word_of_nat k :: 32 word)) @ '':'' @
            cstr (?cs ! k) @ [CHR 0x0A])" .
  show "proc (''/proc/self/fd/'' @ show_int (fileno f)) = Some target \<longrightarrow>
      printf_s (recover_filename proc f) = cstr (take 255 target)"
    by (simp add: recover_filename_def printf_s_def Let_def)
qed

theorem match_record_format_witness:
  "''/root/a.txt:0:the'' @ [CHR 0x0A, CHR 0x0A]
     \<in> set (analyze_file \<lparr>g_search_dir = Some ''/root'', g_exact = False, g_search_terms = [''the'']\<rparr>
         (\<lambda>link. if link = ''/proc/self/fd/4'' then Some ''/root/a.txt'' else None)
         (4, ''the'' @ [CHR 0x0A]))"
proof -
  let ?g = "\<lparr>g_search_dir = Some ''/root'', g_exact = False, g_search_terms = [''the'']\<rparr>"
  let ?proc = "\<lambda>link. if link = ''/proc/self/fd/4'' then Some ''/root/a.txt'' else None"
  let ?f = "(4, ''the'' @ [CHR 0x0A]) :: stream"
  let ?r = "''/root/a.txt:0:the'' @ [CHR 0x0A, CHR 0x0A]"
  note inst = match_record_format [of ?r ?g ?proc ?f "''/root/a.txt''"]
  have link: "?proc (''/proc/self/fd/'' @ show_int (fileno ?f)) = Some ''/root/a.txt''"
    by code_simp
  from inst link have name: "printf_s (recover_filename ?proc ?f) = cstr (take 255 ''/root/a.txt'')"
    by blast
  have len: "0 < length (chunks (snd ?f))" by code_simp
  have rec: "(\<exists>w\<in>set (spec_words (cstr (chunks (snd ?f) ! 0))).
           \<exists>t\<in>set (g_search_terms ?g). compare (g_exact ?g) w t = 0) \<and>
        ?r = cstr (take 255 ''/root/a.txt'') @ '':'' @
            show_int (sint (word_of_nat 0 :: 32 word)) @ '':'' @
            cstr (chunks (snd ?f) ! 0) @ [CHR 0x0A]"
    by code_simp
  from len rec have "\<exists>k<length (chunks (snd ?f)).
        (\<exists>w\<in>set (spec_words (cstr (chunks (snd ?f) ! k))).
           \<exists>t\<in>set (g_search_terms ?g). compare (g_exact ?g) w t = 0) \<and>
        ?r = printf_s (recover_filename ?proc ?f) @ '':'' @
            show_int (sint (word_of_nat k :: 32 word)) @ '':'' @
            cstr (chunks (snd ?f) ! k) @ [CHR 0x0A]"
    unfolding name by blast
  with inst show ?thesis by blast
qed

text \<open>
  Claim C7, as stated: when the root path cannot be opened for listing the program ends
  with a non-zero status. It fails: \<open>ls\<close> returns nothing to \<open>main\<close>, which always
  ends in \<open>pthread_exit(0)\<close>.
\<close>

theorem root_failure_exits_with_status_0:
  "n_opendir (Node None None None) = None \<and>
   status (main 4 [] ''/nowhere'' [''the''] (\<lambda>path. Node None None None)) = Exited 0"
  by (simp add: main_def Let_def)

text \<open>
  Claim C7, amended: when the options let the run reach the walk and the root path
  cannot be opened for listing, the walk consists of one \<open>perror\<close>, main writes
  nothing to the error stream, no search is started, so there is no match, and the
  process ends with status 0.
\<close>

theorem root_failure:
  assumes "while_getopt num_cores opts
             (\<lparr>g_search_dir = None, g_exact = False, g_search_terms = []\<rparr>, num_cores) = Inr (g, k)"
    and "n_opendir (fs (case g_search_dir g of None \<Rightarrow> cwd | Some d \<Rightarrow> d)) = None"
  shows "walk (main num_cores opts cwd terms fs) = [Perror] \<and>
         diagnostics (walk (main num_cores opts cwd terms fs)) = 1 \<and>
         stderr_main (main num_cores opts cwd terms fs) = [] \<and>
         matches (search (main num_cores opts cwd terms fs)) proc (walk (main num_cores opts cwd terms fs)) = [] \<and>
         status (main num_cores opts cwd terms fs) = Exited 0"
  using assms by (simp add: main_def Let_def ls_opendir_fails diagnostics_def matches_def flushed_def)

theorem root_failure_witness:
  "walk (main 4 [Opt_e, Opt_d ''/nowhere''] ''/home'' [''the''] (\<lambda>path. Node None None None)) = [Perror] \<and>
   diagnostics (walk (main 4 [Opt_e, Opt_d ''/nowhere''] ''/home'' [''the''] (\<lambda>path. Node None None None))) = 1 \<and>
   matches (search (main 4 [Opt_e, Opt_d ''/nowhere''] ''/home'' [''the''] (\<lambda>path. Node None None None)))
     (\<lambda>link. None)
     (walk (main 4 [Opt_e, Opt_d ''/nowhere''] ''/home'' [''the''] (\<lambda>path. Node None None None))) = [] \<and>
   status (main 4 [Opt_e, Opt_d ''/nowhere''] ''/home'' [''the''] (\<lambda>path. Node None None None)) = Exited 0"
proof -
  have opts: "while_getopt 4 [Opt_e, Opt_d ''/nowhere'']
      (\<lparr>g_search_dir = None, g_exact = False, g_search_terms = []\<rparr>, 4)
    = Inr (\<lparr>g_search_dir = Some ''/nowhere'', g_exact = True, g_search_terms = []\<rparr>, 4)"
    by simp
  have root: "n_opendir ((\<lambda>path. Node None None None)
      (case g_search_dir \<lparr>g_search_dir = Some ''/nowhere'', g_exact = True, g_search_terms = []\<rparr> of
         None \<Rightarrow> ''/home'' | Some d \<Rightarrow> d)) = None"
    by simp
  from root_failure [where cwd = "''/home''" and terms = "[''the'']" and proc = "\<lambda>link. None", OF opts root] show ?thesis by blast
qed

text \<open>
  Claim C8, as stated: a malformed concurrency level aborts the program before the walk.
  It fails: \<open>atoi\<close> reads the leading number of \<open>2x\<close>, the value 2 is in range, and
  the walk takes place.
\<close>

theorem malformed_threads_value_accepted:
  "main 4 [Opt_t ''2x''] ''/root'' [''the''] (\<lambda>path. Node (Some S_IFDIR) None (Some []))
   = \<lparr>status = Exited 0, stdout_main = [Dir_is ''/root''], stderr_main = [], sem_init = Some 2,
      search = \<lparr>g_search_dir = Some ''/root'', g_exact = False, g_search_terms = [''the'']\<rparr>,
      walk = [Opendir ''/root'', Closedir ''/root'']\<rparr>"
  by code_simp

text \<open>
  Claim C8, amended: when the option loop reaches a \<open>-t\<close> argument whose value as
  \<open>atoi\<close> reads it is below 1 or above the number of processors, the program
  aborts; the semaphore is not initialised and no walk takes place.
\<close>

theorem invalid_threads_aborts:
  assumes "while_getopt num_cores pre
             (\<lparr>g_search_dir = None, g_exact = False, g_search_terms = []\<rparr>, num_cores) = Inr c"
    and "atoi optarg < 1 \<or> num_cores < atoi optarg"
  shows "status (main num_cores (pre @ Opt_t optarg # post) cwd terms fs) = Aborted \<and>
         sem_init (main num_cores (pre @ Opt_t optarg # post) cwd terms fs) = None \<and>
         walk (main num_cores (pre @ Opt_t optarg # post) cwd terms fs) = []"
proof -
  obtain g k where c: "c = (g, k)" by (cases c)
  from assms(2) have "while_getopt num_cores (Opt_t optarg # post) (g, k)
      = Inl (Aborted, [Invalid_threads num_cores], [])"
    by (auto simp: Let_def)
  with assms(1) show ?thesis
    by (simp add: main_def while_getopt_append c)
qed

theorem invalid_threads_aborts_witness:
  "status (main 4 ([Opt_e, Opt_t ''2''] @ Opt_t ''abc'' # [Opt_d ''/root'']) ''/home'' [''the'']
      (\<lambda>path. Node (Some S_IFDIR) None (Some []))) = Aborted \<and>
   sem_init (main 4 ([Opt_e, Opt_t ''2''] @ Opt_t ''abc'' # [Opt_d ''/root'']) ''/home'' [''the'']
      (\<lambda>path. Node (Some S_IFDIR) None (Some []))) = None \<and>
   walk (main 4 ([Opt_e, Opt_t ''2''] @ Opt_t ''abc'' # [Opt_d ''/root'']) ''/home'' [''the'']
      (\<lambda>path. Node (Some S_IFDIR) None (Some []))) = []"
proof -
  have pre: "while_getopt 4 [Opt_e, Opt_t ''2'']
      (\<lparr>g_search_dir = None, g_exact = False, g_search_terms = []\<rparr>, 4)
    = Inr (\<lparr>g_search_dir = None, g_exact = True, g_search_terms = []\<rparr>, 2)"
    by code_simp
  have bad: "atoi ''abc'' < 1 \<or> 4 < atoi ''abc''" by code_simp
  show ?thesis by (rule invalid_threads_aborts [OF pre bad])
qed

text \<open>
  Claim C9: the comparison of a word with a term gives 0 exactly when the two are equal
  byte for byte in exact mode, and exactly when they are equal after lower-casing
  otherwise; \<open>The\<close>, \<open>THE\<close> and \<open>the\<close> match the term \<open>the\<close> in the
  case-insensitive mode, and only \<open>the\<close> does in exact mode.
\<close>

theorem compare_modes:
  "(compare True word term = 0 \<longleftrightarrow> cstr word = cstr term) \<and>
   (compare False word term = 0 \<longleftrightarrow> map tolower (cstr word) = map tolower (cstr term)) \<and>
   compare False ''The'' ''the'' = 0 \<and> compare False ''THE'' ''the'' = 0 \<and>
   compare False ''the'' ''the'' = 0 \<and>
   compare True ''The'' ''the'' \<noteq> 0 \<and> compare True ''THE'' ''the'' \<noteq> 0 \<and>
   compare True ''the'' ''the'' = 0"
proof -
  have general: "(compare True word term = 0 \<longleftrightarrow> cstr word = cstr term) \<and>
    (compare False word term = 0 \<longleftrightarrow> map tolower (cstr word) = map tolower (cstr term))"
    by (simp add: compare_zero)
  have insensitive: "compare False ''The'' ''the'' = 0 \<and> compare False ''THE'' ''the'' = 0 \<and>
    compare False ''the'' ''the'' = 0"
    by code_simp
  have exact: "compare True ''The'' ''the'' \<noteq> 0 \<and> compare True ''THE'' ''the'' \<noteq> 0 \<and>
    compare True ''the'' ''the'' = 0"
    by code_simp
  from general insensitive exact show ?thesis by blast
qed

text \<open>
  Claim C10: an entry whose \<open>stat\<close> fails is skipped silently. It contributes no
  event (no \<open>perror\<close>, no \<open>fopen\<close>, no thread, no walk into it), and the walk of
  the directory is the walk of its other entries.
\<close>

theorem stat_failure_skips_entry:
  "while_readdir path [(d_name, Node None fo od)] = [] \<and>
   ls path (Node st f (Some (pre @ (d_name, Node None fo od) # post)))
     = ls path (Node st f (Some (pre @ post)))"
  by (simp add: while_readdir_append)

end
